theory Spec2Isabelle
  imports Complex_Main "HOL-Library.Sublist" "HOL-Library.Multiset"
begin

section \<open>Text and character classes\<close>

text \<open>
  A Python \<open>str\<close> is a sequence of Unicode code points; a code point is a natural number.
  \<open>U\<close> writes an ASCII literal as such a sequence. The character classes \<open>\<bslash>s\<close> and
  \<open>\<bslash>d\<close> and the case mappings are those of Python on ASCII; \<open>\<bslash>s\<close> also has the
  non-ASCII white space of \<open>str.isspace\<close>. Other code points are caseless non-digits here.
\<close>

type_synonym str = "int list"

definition U :: "string \<Rightarrow> str" where
  "U s = map of_char s"

definition is_space :: "int \<Rightarrow> bool" where
  "is_space c \<longleftrightarrow>
     (9 \<le> c \<and> c \<le> 13) \<or> (28 \<le> c \<and> c \<le> 32) \<or> c = 133 \<or> c = 160 \<or> c = 5760 \<or>
     (8192 \<le> c \<and> c \<le> 8202) \<or> c = 8232 \<or> c = 8233 \<or> c = 8239 \<or> c = 8287 \<or> c = 12288"

definition is_digit :: "int \<Rightarrow> bool" where
  "is_digit c \<longleftrightarrow> 48 \<le> c \<and> c \<le> 57"

definition lower_cp :: "int \<Rightarrow> int" where
  "lower_cp c = (if 65 \<le> c \<and> c \<le> 90 then c + 32 else c)"

definition upper_cp :: "int \<Rightarrow> int" where
  "upper_cp c = (if 97 \<le> c \<and> c \<le> 122 then c - 32 else c)"

definition lower :: "str \<Rightarrow> str" where
  "lower s = map lower_cp s"

text \<open>\<open>s.strip()\<close>, \<open>s.rstrip('.,')\<close>, \<open>re.sub(r'\<bslash>s+', ' ', s)\<close> and \<open>s.split()\<close>.\<close>

definition rstrip_ws :: "str \<Rightarrow> str" where
  "rstrip_ws s = rev (dropWhile is_space (rev s))"

definition strip :: "str \<Rightarrow> str" where
  "strip s = rstrip_ws (dropWhile is_space s)"

definition rstrip_chars :: "str \<Rightarrow> str \<Rightarrow> str" where
  "rstrip_chars cs s = rev (dropWhile (\<lambda>c. c \<in> set cs) (rev s))"

fun collapse_from :: "bool \<Rightarrow> str \<Rightarrow> str" where
  "collapse_from b [] = []"
| "collapse_from b (c # s) =
     (if is_space c then (if b then collapse_from True s else 32 # collapse_from True s)
      else c # collapse_from False s)"

definition collapse_ws :: "str \<Rightarrow> str" where
  "collapse_ws s = collapse_from False s"

function split_ws :: "str \<Rightarrow> str list" where
  "split_ws [] = []"
| "split_ws (c # s) =
     (if is_space c then split_ws s
      else (c # takeWhile (\<lambda>x. \<not> is_space x) s) # split_ws (dropWhile (\<lambda>x. \<not> is_space x) s))"
  by pat_completeness auto
termination
  by (relation "measure length") (auto simp: less_Suc_eq_le length_dropWhile_le)

text \<open>Python's slice \<open>s[i:j]\<close> for \<open>0 \<le> i\<close>; a negative \<open>j\<close> counts from the end.\<close>

definition slice :: "str \<Rightarrow> nat \<Rightarrow> int \<Rightarrow> str" where
  "slice s i j =
     (let n = int (length s);
          j' = (if j < 0 then max 0 (n + j) else min j n)
      in take (nat j' - i) (drop i s))"

section \<open>Regular expressions of the \<open>re\<close> module\<close>

text \<open>
  The patterns of the program use literals, character sets, \<open>.\<close>, \<open>^\<close>, sequence, alternation,
  greedy and lazy counted repetition and capture groups. \<open>Rep r lo hi g\<close> is \<open>r{lo,hi}\<close>,
  greedy when \<open>g\<close>, with \<open>hi = None\<close> for no upper bound.
\<close>

datatype citem = One int | Rng int int | Space | Digit

datatype rx =
    Eps
  | Cls "citem list"
  | Dot
  | Bol
  | Seq rx rx
  | Alt rx rx
  | Grp nat rx
  | Rep rx nat "nat option" bool

type_synonym caps = "nat \<rightharpoonup> nat \<times> nat"

fun item_match :: "citem \<Rightarrow> int \<Rightarrow> bool" where
  "item_match (One a) c = (c = a)"
| "item_match (Rng a b) c = (a \<le> c \<and> c \<le> b)"
| "item_match Space c = is_space c"
| "item_match Digit c = is_digit c"

definition cls_match :: "bool \<Rightarrow> citem list \<Rightarrow> int \<Rightarrow> bool" where
  "cls_match ic items c =
     (if ic then (\<exists>i \<in> set items. item_match i (lower_cp c) \<or> item_match i (upper_cp c))
      else (\<exists>i \<in> set items. item_match i c))"

fun rsz :: "rx \<Rightarrow> nat" where
  "rsz (Seq a b) = Suc (rsz a + rsz b)"
| "rsz (Alt a b) = Suc (rsz a + rsz b)"
| "rsz (Grp g a) = Suc (rsz a)"
| "rsz (Rep a lo hi g) = Suc (rsz a)"
| "rsz r = 0"

text \<open>
  \<open>ms ic ml t r (p, c)\<close> lists, in the order the backtracking matcher tries them, the end
  positions and captures of the ways \<open>r\<close> matches \<open>t\<close> from position \<open>p\<close>; \<open>ic\<close> is
  \<open>re.I\<close>, \<open>ml\<close> is \<open>re.MULTILINE\<close>. An optional iteration of a repetition must consume
  a character.
\<close>

function ms :: "bool \<Rightarrow> bool \<Rightarrow> str \<Rightarrow> rx \<Rightarrow> nat \<times> caps \<Rightarrow> (nat \<times> caps) list" where
  "ms ic ml t Eps (p, c) = [(p, c)]"
| "ms ic ml t (Cls items) (p, c) =
     (if p < length t \<and> cls_match ic items (t ! p) then [(Suc p, c)] else [])"
| "ms ic ml t Dot (p, c) = (if p < length t \<and> t ! p \<noteq> 10 then [(Suc p, c)] else [])"
| "ms ic ml t Bol (p, c) =
     (if p = 0 \<or> (ml \<and> p \<le> length t \<and> t ! (p - 1) = 10) then [(p, c)] else [])"
| "ms ic ml t (Seq r1 r2) (p, c) = concat (map (ms ic ml t r2) (ms ic ml t r1 (p, c)))"
| "ms ic ml t (Alt r1 r2) (p, c) = ms ic ml t r1 (p, c) @ ms ic ml t r2 (p, c)"
| "ms ic ml t (Grp g r) (p, c) = map (\<lambda>(e, c'). (e, c'(g \<mapsto> (p, e)))) (ms ic ml t r (p, c))"
| "ms ic ml t (Rep r lo hi g) (p, c) =
     (let more = (if hi = Some 0 then []
                  else concat (map (\<lambda>(e, c').
                         if 0 < lo \<or> (p < e \<and> e \<le> length t)
                         then ms ic ml t (Rep r (lo - 1) (map_option (\<lambda>h. h - 1) hi) g) (e, c')
                         else [])
                       (ms ic ml t r (p, c))));
          stop = (if lo = 0 then [(p, c)] else [])
      in if g then more @ stop else stop @ more)"
  by pat_completeness auto
termination
  by (relation "inv_image (less_than <*lex*> less_than <*lex*> less_than)
        (\<lambda>(ic, ml, t, r, p, c). (rsz r, (case r of Rep a lo hi g \<Rightarrow> lo | _ \<Rightarrow> 0), length t - p))")
     auto

declare ms.simps(8) [simp del]

lemma ms_bound:
  "(e, c') \<in> set (ms ic ml t r (p, c)) \<Longrightarrow> p \<le> length t \<Longrightarrow> p \<le> e \<and> e \<le> length t"
proof (induction ic ml t r "(p, c)" arbitrary: p c e c' rule: ms.induct)
  case (5 ic ml t r1 r2 p c)
  from "5.prems"(1) obtain e1 c1 where
    a: "(e1, c1) \<in> set (ms ic ml t r1 (p, c))" and b: "(e, c') \<in> set (ms ic ml t r2 (e1, c1))"
    by auto
  from "5.hyps"(1)[OF a "5.prems"(2)] have "p \<le> e1" "e1 \<le> length t" by auto
  with "5.hyps"(2)[OF a b] show ?case by auto
next
  case (8 ic ml t r lo hi g p c)
  let ?more = "concat (map (\<lambda>(e, c').
                         if 0 < lo \<or> (p < e \<and> e \<le> length t)
                         then ms ic ml t (Rep r (lo - 1) (map_option (\<lambda>h. h - 1) hi) g) (e, c')
                         else [])
                       (ms ic ml t r (p, c)))"
  from "8.prems"(1) consider "e = p" | "hi \<noteq> Some 0" "(e, c') \<in> set ?more"
    by (subst (asm) ms.simps(8)) (auto simp: Let_def split: if_splits)
  then show ?case
  proof cases
    case 1
    then show ?thesis using "8.prems"(2) by simp
  next
    case 2
    then obtain e1 c1 where
      a: "(e1, c1) \<in> set (ms ic ml t r (p, c))" and
      g: "0 < lo \<or> (p < e1 \<and> e1 \<le> length t)" and
      b: "(e, c') \<in> set (ms ic ml t (Rep r (lo - 1) (map_option (\<lambda>h. h - 1) hi) g) (e1, c1))"
      by (auto split: if_splits)
    from "8.hyps"(1)[OF 2(1) a "8.prems"(2)] have le: "p \<le> e1" "e1 \<le> length t" by auto
    from "8.hyps"(2)[OF 2(1) a refl g b le(2)] le show ?thesis by auto
  qed
qed (auto split: if_splits)


text \<open>
  A match object: start, end and the spans of the groups that took part. \<open>match_at\<close> is
  one attempt of the matcher at position \<open>p\<close>; with \<open>adv\<close> the match must not be empty,
  as \<open>finditer\<close> asks right after an empty match. \<open>search_from\<close> scans forward
  (\<open>re.search\<close>) and \<open>finditer_from\<close> collects the successive matches.
\<close>

record rmatch =
  mstart :: nat
  mend :: nat
  mcaps :: caps

definition match_at :: "bool \<Rightarrow> bool \<Rightarrow> rx \<Rightarrow> str \<Rightarrow> bool \<Rightarrow> nat \<Rightarrow> rmatch option" where
  "match_at ic ml r t adv p =
     (case filter (\<lambda>(e, c). \<not> adv \<or> p < e) (ms ic ml t r (p, Map.empty)) of
        [] \<Rightarrow> None
      | (e, c) # _ \<Rightarrow> Some \<lparr>mstart = p, mend = e, mcaps = c\<rparr>)"

function search_from :: "bool \<Rightarrow> bool \<Rightarrow> rx \<Rightarrow> str \<Rightarrow> bool \<Rightarrow> nat \<Rightarrow> rmatch option" where
  "search_from ic ml r t adv p =
     (case match_at ic ml r t adv p of
        Some m \<Rightarrow> Some m
      | None \<Rightarrow> if p < length t then search_from ic ml r t False (Suc p) else None)"
  by pat_completeness auto
termination
  by (relation "measure (\<lambda>(ic, ml, r, t, adv, p). length t - p)") auto

definition re_search :: "bool \<Rightarrow> bool \<Rightarrow> rx \<Rightarrow> str \<Rightarrow> rmatch option" where
  "re_search ic ml r t = search_from ic ml r t False 0"

lemma match_at_bound:
  assumes "match_at ic ml r t adv p = Some m" "p \<le> length t"
  shows "mstart m = p \<and> p \<le> mend m \<and> mend m \<le> length t \<and> (adv \<longrightarrow> p < mend m)"
proof -
  from assms(1) obtain e c rest where
    f: "filter (\<lambda>(e, c). \<not> adv \<or> p < e) (ms ic ml t r (p, Map.empty)) = (e, c) # rest"
    and m: "m = \<lparr>mstart = p, mend = e, mcaps = c\<rparr>"
    by (auto simp: match_at_def split: list.splits)
  have "(e, c) \<in> set (filter (\<lambda>(e, c). \<not> adv \<or> p < e) (ms ic ml t r (p, Map.empty)))"
    unfolding f by simp
  then have "(e, c) \<in> set (ms ic ml t r (p, Map.empty))" "\<not> adv \<or> p < e"
    by auto
  with ms_bound[OF _ assms(2)] m show ?thesis by auto
qed

declare search_from.simps [simp del]

lemma search_from_bound:
  "search_from ic ml r t adv p = Some m \<Longrightarrow> p \<le> length t \<Longrightarrow>
     p \<le> mstart m \<and> mstart m \<le> mend m \<and> mend m \<le> length t \<and> (adv \<longrightarrow> p < mend m)"
proof (induction ic ml r t adv p rule: search_from.induct)
  case (1 ic ml r t adv p)
  show ?case
  proof (cases "match_at ic ml r t adv p")
    case (Some m')
    with "1.prems" have "m' = m" by (simp add: search_from.simps[of ic ml r t adv p])
    with match_at_bound[OF Some "1.prems"(2)] show ?thesis by auto
  next
    case None
    with "1.prems" have lt: "p < length t" and s: "search_from ic ml r t False (Suc p) = Some m"
      by (auto simp: search_from.simps[of ic ml r t adv p] split: if_splits)
    from "1.IH"[OF None lt s] lt show ?thesis by auto
  qed
qed

function finditer_from :: "bool \<Rightarrow> bool \<Rightarrow> rx \<Rightarrow> str \<Rightarrow> bool \<Rightarrow> nat \<Rightarrow> rmatch list" where
  "finditer_from ic ml r t adv p =
     (if length t < p then []
      else case search_from ic ml r t adv p of
             None \<Rightarrow> []
           | Some m \<Rightarrow> m # finditer_from ic ml r t (mend m = mstart m) (mend m))"
  by pat_completeness auto
termination
  apply (relation "measure (\<lambda>(ic, ml, r, t, adv, p). 2 * (length t - p) + (if adv then 0 else 1))")
  apply simp
  apply (auto dest!: search_from_bound)
  done

definition finditer :: "bool \<Rightarrow> bool \<Rightarrow> rx \<Rightarrow> str \<Rightarrow> rmatch list" where
  "finditer ic ml r t = finditer_from ic ml r t False 0"

text \<open>\<open>m.group(k)\<close>: \<open>None\<close> when group \<open>k\<close> took no part in the match.\<close>

definition group :: "str \<Rightarrow> rmatch \<Rightarrow> nat \<Rightarrow> str option" where
  "group t m k = map_option (\<lambda>(s, e). take (e - s) (drop s t)) (mcaps m k)"

subsection \<open>Pattern notation\<close>

definition seqs :: "rx list \<Rightarrow> rx" where
  "seqs rs = foldr Seq rs Eps"

definition chr :: "char \<Rightarrow> rx" where
  "chr a = Cls [One (of_char a)]"

definition lit :: "string \<Rightarrow> rx" where
  "lit s = seqs (map chr s)"

fun alts :: "rx list \<Rightarrow> rx" where
  "alts [] = Eps"
| "alts [r] = r"
| "alts (r # rs) = Alt r (alts rs)"

definition star :: "rx \<Rightarrow> rx" where "star r = Rep r 0 None True"
definition plus1 :: "rx \<Rightarrow> rx" where "plus1 r = Rep r 1 None True"
definition opt :: "rx \<Rightarrow> rx" where "opt r = Rep r 0 (Some 1) True"
definition lazy_star :: "rx \<Rightarrow> rx" where "lazy_star r = Rep r 0 None False"
definition ws :: rx where "ws = Cls [Space]"
definition digit :: rx where "digit = Cls [Digit]"
definition AZ :: rx where "AZ = Cls [Rng 65 90]"
definition az :: rx where "az = Cls [Rng 97 122]"

definition NL :: str where "NL = [10]"

section \<open>The program\<close>

datatype error = AttributeError

record entity =
  name :: str
  type' :: str

record subsidiary = entity +
  jurisdiction :: str

record director = entity +
  role :: str

record owner = entity +
  ownership :: rat

text \<open>
  A \<open>for\<close> loop whose body may raise: the state is threaded through the iterations and the
  first error ends the loop.
\<close>

fun for_each :: "('s \<Rightarrow> 'a \<Rightarrow> error + 's) \<Rightarrow> 'a list \<Rightarrow> 's \<Rightarrow> error + 's" where
  "for_each body [] s = Inr s"
| "for_each body (x # xs) s = (case body s x of Inl e \<Rightarrow> Inl e | Inr s' \<Rightarrow> for_each body xs s')"

subsection \<open>\<open>find_section\<close>\<close>

text \<open>The inner loop over the end markers; \<open>None\<close> when it falls through.\<close>

fun find_end :: "str \<Rightarrow> nat \<Rightarrow> rx list \<Rightarrow> str option" where
  "find_end text start [] = None"
| "find_end text start (end_marker # rest) =
     (case re_search True False end_marker (drop start text) of
        Some end_match \<Rightarrow> Some (slice text start (int (start + mstart end_match)))
      | None \<Rightarrow> find_end text start rest)"

fun find_section :: "str \<Rightarrow> rx list \<Rightarrow> rx list option \<Rightarrow> int \<Rightarrow> str" where
  "find_section text [] end_markers max_chars = []"
| "find_section text (marker # rest) end_markers max_chars =
     (case re_search True False marker text of
        Some match \<Rightarrow>
          (let start = mstart match
           in case (case end_markers of None \<Rightarrow> None | Some ems \<Rightarrow> find_end text start ems) of
                Some section \<Rightarrow> section
              | None \<Rightarrow> slice text start (int start + max_chars))
      | None \<Rightarrow> find_section text rest end_markers max_chars)"

subsection \<open>\<open>parse_exhibit21\<close>\<close>

text \<open>The set \<open>[A-Za-z0-9\<bslash>-,&\<bslash>.\<bslash>s]\<close> and the jurisdiction \<open>[A-Z][a-z]+(?:\<bslash>s+[A-Z]{2})?\<close>.\<close>

definition name_chars :: rx where
  "name_chars = Cls [Rng 65 90, Rng 97 122, Rng 48 57, One 45, One 44, One 38, One 46, Space]"

definition jurisdiction_rx :: rx where
  "jurisdiction_rx = seqs [AZ, plus1 az, opt (seqs [plus1 ws, Rep AZ 2 (Some 2) True])]"

definition exhibit21_patterns :: "rx list" where
  "exhibit21_patterns =
     [seqs [Bol, star ws, Grp 1 (seqs [AZ, Rep name_chars 2 (Some 90) False]), star ws,
            Cls [One 40, One 45, One 8211, One 8212], star ws, Grp 2 jurisdiction_rx,
            star ws, opt (chr CHR '')'')],
      seqs [Bol, star ws, Grp 1 (seqs [AZ, Rep name_chars 2 (Some 90) False]), chr CHR '','',
            plus1 ws, Grp 2 jurisdiction_rx]]"

text \<open>
  The body of the inner loop, on the state \<open>(subsidiaries, seen)\<close>. \<open>.strip()\<close> on a group
  that is \<open>None\<close> would raise.
\<close>

definition exhibit21_body ::
  "str \<Rightarrow> subsidiary list \<times> str set \<Rightarrow> rmatch \<Rightarrow> error + subsidiary list \<times> str set" where
  "exhibit21_body text st match =
     (case group text match 1 of None \<Rightarrow> Inl AttributeError | Some g1 \<Rightarrow>
      case group text match 2 of None \<Rightarrow> Inl AttributeError | Some g2 \<Rightarrow>
        let name0 = strip g1;
            jurisdiction' = strip g2;
            name' = collapse_ws name0
        in if 2 < length name' \<and> lower name' \<notin> snd st
           then Inr (fst st @ [\<lparr>name = name', type' = U ''subsidiary'', jurisdiction = jurisdiction'\<rparr>],
                     insert (lower name') (snd st))
           else Inr st)"

definition parse_exhibit21 :: "str \<Rightarrow> error + subsidiary list" where
  "parse_exhibit21 text =
     map_sum id fst
       (for_each (\<lambda>st pattern. for_each (exhibit21_body text) (finditer False True pattern text) st)
          exhibit21_patterns ([], {}))"

subsection \<open>\<open>parse_def14a_directors\<close>\<close>

definition title_keywords :: "string list" where
  "title_keywords =
     [''Director'', ''CEO'', ''President'', ''Chairman'', ''CFO'', ''CTO'',
      ''Chief Financial Officer'', ''Chief Executive Officer'',
      ''General Counsel'', ''Chief Legal Officer'', ''Officer'',
      ''Vice President'', ''Senior Vice President'', ''SVP'']"

text \<open>\<open>[A-Z][a-z]+(?:\<bslash>s+[A-Z]\<bslash>.?)?(?:\<bslash>s+[A-Z][a-z]+)+\<close>\<close>

definition person_rx :: rx where
  "person_rx = seqs [AZ, plus1 az, opt (seqs [plus1 ws, AZ, opt (chr CHR ''.'')]),
                     plus1 (seqs [plus1 ws, AZ, plus1 az])]"

definition director_pattern :: rx where
  "director_pattern = seqs [Bol, person_rx, lazy_star Dot, Grp 1 (alts (map lit title_keywords))]"

definition director_body ::
  "str \<Rightarrow> director list \<times> str set \<Rightarrow> rmatch \<Rightarrow> error + director list \<times> str set" where
  "director_body text st match =
     (let line_start = nat (max 0 (int (mstart match) - 100));
          line_text = slice text line_start (int (mend match))
      in case re_search False False (Grp 1 person_rx) line_text of
           None \<Rightarrow> Inr st
         | Some name_match \<Rightarrow>
            (case group line_text name_match 1 of None \<Rightarrow> Inl AttributeError | Some g1 \<Rightarrow>
             case group text match 1 of None \<Rightarrow> Inl AttributeError | Some g2 \<Rightarrow>
               let name' = strip g1;
                   role' = strip g2
               in if lower name' \<notin> snd st \<and> 2 \<le> length (split_ws name')
                  then Inr (fst st @ [\<lparr>name = name', type' = U ''director'', role = role'\<rparr>],
                            insert (lower name') (snd st))
                  else Inr st))"

definition parse_def14a_directors :: "str \<Rightarrow> error + director list" where
  "parse_def14a_directors text =
     map_sum id fst
       (for_each (director_body text) (finditer True True director_pattern text) ([], {}))"

subsection \<open>\<open>parse_def14a_beneficial_owners\<close>\<close>

text \<open>
  \<open>float(s)\<close> on the decimal numerals \<open>\<bslash>d+(\<bslash>.\<bslash>d+)?\<close>, the only strings the patterns
  capture; \<open>None\<close> is \<open>ValueError\<close>. A float is taken as the exact rational it denotes.
\<close>

definition digits_val :: "str \<Rightarrow> nat" where
  "digits_val ds = foldl (\<lambda>a d. 10 * a + nat (d - 48)) 0 ds"

definition float :: "str \<Rightarrow> rat option" where
  "float s =
     (let ip = takeWhile is_digit s;
          rest = dropWhile is_digit s
      in if ip = [] then None
         else if rest = [] then Some (of_nat (digits_val ip))
         else if hd rest = 46 \<and> tl rest \<noteq> [] \<and> list_all is_digit (tl rest)
           then Some (of_nat (digits_val ip) + of_nat (digits_val (tl rest)) / 10 ^ length (tl rest))
         else None)"

definition number_rx :: rx where
  "number_rx = seqs [plus1 digit, opt (seqs [chr CHR ''.'', plus1 digit])]"

definition owner_patterns :: "rx list" where
  "owner_patterns =
     [seqs [Grp 1 (seqs [AZ, Rep name_chars 2 (Some 80) False]), plus1 ws,
            opt (alts [Cls [One 8212], Cls [One 8211], chr CHR ''-'', chr CHR '':'']), star ws,
            Grp 2 number_rx, star ws, chr CHR ''%''],
      seqs [Grp 1 (seqs [AZ, Rep name_chars 2 (Some 80) False]), plus1 ws,
            Grp 2 number_rx, star ws, alts [lit ''percent'', chr CHR ''%'']]]"

definition owner_body ::
  "str \<Rightarrow> owner list \<times> str set \<Rightarrow> rmatch \<Rightarrow> error + owner list \<times> str set" where
  "owner_body text st match =
     (case group text match 1 of None \<Rightarrow> Inl AttributeError | Some g1 \<Rightarrow>
      case group text match 2 of None \<Rightarrow> Inl AttributeError | Some g2 \<Rightarrow>
        let name0 = strip g1;
            ownership_str = strip g2;
            name1 = collapse_ws name0;
            name' = rstrip_chars (U ''.,'') name1
        in case float ownership_str of
             None \<Rightarrow> Inr st
           | Some ownership' \<Rightarrow>
               if 1 / 10 < ownership' \<and> ownership' < 100 \<and> 3 < length name' \<and> lower name' \<notin> snd st
               then Inr (fst st @ [\<lparr>name = name', type' = U ''owner'', ownership = ownership'\<rparr>],
                         insert (lower name') (snd st))
               else Inr st)"

definition parse_def14a_beneficial_owners :: "str \<Rightarrow> error + owner list" where
  "parse_def14a_beneficial_owners text =
     map_sum id fst
       (for_each (\<lambda>st pattern. for_each (owner_body text) (finditer False True pattern text) st)
          owner_patterns ([], {}))"

subsection \<open>\<open>extract_from_filings\<close> and the fallback of \<open>upload\<close>\<close>

record extraction =
  subsidiaries :: "subsidiary list"
  directors :: "director list"
  owners :: "owner list"

definition wsp :: rx where "wsp = plus1 ws"

definition extract_from_filings :: "str \<Rightarrow> str \<Rightarrow> error + extraction" where
  "extract_from_filings pdf_10k_text pdf_14a_text =
     (let exhibit21_text = find_section pdf_10k_text
            [seqs [lit ''EXHIBIT'', wsp, lit ''21''], seqs [lit ''exhibit'', wsp, lit ''21'']]
            (Some [seqs [lit ''EXHIBIT'', wsp, lit ''22''], lit ''SIGNATURES'',
                   seqs [lit ''ITEM'', wsp, lit ''16'']]) 20000
      in case (if exhibit21_text \<noteq> [] then parse_exhibit21 exhibit21_text else Inr []) of
           Inl e \<Rightarrow> Inl e
         | Inr subs \<Rightarrow>
      let directors_text = find_section pdf_14a_text
            [lit ''DIRECTORS'', seqs [lit ''EXECUTIVE'', wsp, lit ''OFFICERS''],
             seqs [lit ''BOARD'', wsp, lit ''MEMBERS'']]
            (Some [seqs [lit ''EXECUTIVE'', wsp, lit ''COMPENSATION''],
                   seqs [lit ''COMPENSATION'', wsp, lit ''DISCUSSION''], lit ''CD&A'']) 20000
      in case (if directors_text \<noteq> [] then parse_def14a_directors directors_text else Inr []) of
           Inl e \<Rightarrow> Inl e
         | Inr dirs \<Rightarrow>
      let owners_text = find_section pdf_14a_text
            [seqs [lit ''BENEFICIAL'', wsp, lit ''OWNER''],
             seqs [lit ''SECURITY'', wsp, lit ''OWNERSHIP''],
             seqs [lit ''PRINCIPAL'', wsp, lit ''SHAREHOLDERS'']]
            (Some [seqs [lit ''EXECUTIVE'', wsp, lit ''OFFICERS''], lit ''DIRECTORS'',
                   lit ''PROPOSAL'']) 20000
      in case (if owners_text \<noteq> [] then parse_def14a_beneficial_owners owners_text else Inr []) of
           Inl e \<Rightarrow> Inl e
         | Inr owns \<Rightarrow> Inr \<lparr>subsidiaries = subs, directors = dirs, owners = owns\<rparr>)"

text \<open>
  The entity extraction of \<open>upload\<close>: \<open>extract_from_filings\<close>, then, when no subsidiary was
  found and the 10-K text is not empty, the subsidiaries of the whole DEF 14A text.
\<close>

definition upload_extract :: "str \<Rightarrow> str \<Rightarrow> error + extraction" where
  "upload_extract ten_k_text def14a_text =
     (case extract_from_filings ten_k_text def14a_text of
        Inl e \<Rightarrow> Inl e
      | Inr result \<Rightarrow>
          if subsidiaries result = [] \<and> ten_k_text \<noteq> []
          then (case parse_exhibit21 def14a_text of
                  Inl e \<Rightarrow> Inl e
                | Inr subs \<Rightarrow> Inr (result\<lparr>subsidiaries := subs\<rparr>))
          else Inr result)"

subsection \<open>Metrics\<close>

datatype risk = HIGH | MEDIUM | LOW

record metrics =
  total_subsidiaries :: nat
  total_directors :: nat
  total_owners :: nat
  ownership_concentration :: rat
  countries :: nat
  complexity_score :: rat
  governance_score :: rat
  risk_level :: risk

text \<open>\<open>round(x, 1)\<close>: to one decimal, a tie going to the even neighbour.\<close>

definition round1 :: "rat \<Rightarrow> rat" where
  "round1 x =
     (let y = x * 10;
          f = \<lfloor>y\<rfloor>;
          d = y - of_int f
      in of_int (if d < 1 / 2 then f else if 1 / 2 < d then f + 1 else if even f then f else f + 1) / 10)"

definition calculate_complexity_score :: "extraction \<Rightarrow> rat" where
  "calculate_complexity_score data =
     (let num_subs = length (subsidiaries data);
          score1 = min (of_nat num_subs / 2) 4;
          countries' = card (set (map jurisdiction (subsidiaries data)));
          score2 = score1 + min (of_nat countries' / 2) 3;
          offshore_count = length (filter (\<lambda>s. lower (jurisdiction s) \<notin> set [U ''us'', U ''usa''])
                                     (subsidiaries data));
          score3 = score2 + min (of_nat offshore_count / 2) 3
      in round1 (min score3 10))"

definition calculate_governance_score :: "extraction \<Rightarrow> rat" where
  "calculate_governance_score data =
     (let num_directors = length (directors data);
          score1 = 5 + min (of_nat num_directors / 3) 3;
          roles = set (map (\<lambda>d. lower (role d)) (directors data));
          score2 = score1 + min (of_nat (card roles) / 4) 2
      in round1 (min score2 10))"

text \<open>\<open>sorted(owners, key=..., reverse=True)\<close> is stable: a stable sort on the negated key.\<close>

definition calculate_risk_level :: "extraction \<Rightarrow> risk" where
  "calculate_risk_level data =
     (if owners data = [] then MEDIUM
      else let top_ownership =
                 sum_list (map ownership (take 3 (sort_key (\<lambda>x. - ownership x) (owners data))))
           in if 25 < top_ownership then HIGH
              else if 15 < top_ownership then MEDIUM
              else LOW)"

definition calculate_metrics :: "extraction \<Rightarrow> metrics" where
  "calculate_metrics data =
     \<lparr>total_subsidiaries = length (subsidiaries data),
      total_directors = length (directors data),
      total_owners = length (owners data),
      ownership_concentration = sum_list (map ownership (take 3 (owners data))),
      countries = card (set (map jurisdiction (subsidiaries data))),
      complexity_score = calculate_complexity_score data,
      governance_score = calculate_governance_score data,
      risk_level = calculate_risk_level data\<rparr>"

section \<open>Notions used to state the properties\<close>

text \<open>\<open>sets k r\<close>: every match of \<open>r\<close> goes through group \<open>k\<close>.\<close>

fun sets :: "nat \<Rightarrow> rx \<Rightarrow> bool" where
  "sets k (Grp g r) = (k = g \<or> sets k r)"
| "sets k (Seq a b) = (sets k a \<or> sets k b)"
| "sets k (Alt a b) = (sets k a \<and> sets k b)"
| "sets k (Rep r lo hi g) = (0 < lo \<and> sets k r)"
| "sets k r = False"

text \<open>
  \<open>keep_first key S xs\<close> keeps the elements of \<open>xs\<close> whose key is neither in \<open>S\<close> nor the key
  of an earlier element of \<open>xs\<close>. \<open>add_new\<close> is one step of it on the state of a loop.
\<close>

fun keep_first :: "('a \<Rightarrow> 'k) \<Rightarrow> 'k set \<Rightarrow> 'a list \<Rightarrow> 'a list" where
  "keep_first key S [] = []"
| "keep_first key S (x # xs) =
     (if key x \<in> S then keep_first key S xs else x # keep_first key (insert (key x) S) xs)"

definition add_new :: "('a \<Rightarrow> 'k) \<Rightarrow> 'a list \<times> 'k set \<Rightarrow> 'a option \<Rightarrow> 'a list \<times> 'k set" where
  "add_new key st c =
     (case c of None \<Rightarrow> st
      | Some x \<Rightarrow> if key x \<in> snd st then st else (fst st @ [x], insert (key x) (snd st)))"

text \<open>
  The record a match stands for when it passes every filter but the one on \<open>seen\<close>, and the
  records of all matches in the order the loops visit them.
\<close>

definition exhibit21_candidate :: "str \<Rightarrow> rmatch \<Rightarrow> subsidiary option" where
  "exhibit21_candidate text m =
     (case group text m 1 of None \<Rightarrow> None | Some g1 \<Rightarrow>
      case group text m 2 of None \<Rightarrow> None | Some g2 \<Rightarrow>
        if 2 < length (collapse_ws (strip g1))
        then Some \<lparr>name = collapse_ws (strip g1), type' = U ''subsidiary'', jurisdiction = strip g2\<rparr>
        else None)"

definition exhibit21_candidates :: "str \<Rightarrow> subsidiary list" where
  "exhibit21_candidates text =
     concat (map (\<lambda>p. List.map_filter (exhibit21_candidate text) (finditer False True p text))
               exhibit21_patterns)"

definition director_candidate :: "str \<Rightarrow> rmatch \<Rightarrow> director option" where
  "director_candidate text m =
     (let line_text = slice text (nat (max 0 (int (mstart m) - 100))) (int (mend m))
      in case re_search False False (Grp 1 person_rx) line_text of None \<Rightarrow> None | Some nm \<Rightarrow>
         case group line_text nm 1 of None \<Rightarrow> None | Some g1 \<Rightarrow>
         case group text m 1 of None \<Rightarrow> None | Some g2 \<Rightarrow>
           if 2 \<le> length (split_ws (strip g1))
           then Some \<lparr>name = strip g1, type' = U ''director'', role = strip g2\<rparr>
           else None)"

definition director_candidates :: "str \<Rightarrow> director list" where
  "director_candidates text =
     List.map_filter (director_candidate text) (finditer True True director_pattern text)"

definition owner_candidate :: "str \<Rightarrow> rmatch \<Rightarrow> owner option" where
  "owner_candidate text m =
     (case group text m 1 of None \<Rightarrow> None | Some g1 \<Rightarrow>
      case group text m 2 of None \<Rightarrow> None | Some g2 \<Rightarrow>
      case float (strip g2) of None \<Rightarrow> None | Some v \<Rightarrow>
        if 1 / 10 < v \<and> v < 100 \<and> 3 < length (rstrip_chars (U ''.,'') (collapse_ws (strip g1)))
        then Some \<lparr>name = rstrip_chars (U ''.,'') (collapse_ws (strip g1)), type' = U ''owner'',
                   ownership = v\<rparr>
        else None)"

definition owner_candidates :: "str \<Rightarrow> owner list" where
  "owner_candidates text =
     concat (map (\<lambda>p. List.map_filter (owner_candidate text) (finditer False True p text))
               owner_patterns)"


text \<open>Where each match starts and what its first group holds.\<close>

definition starts_and_names :: "str \<Rightarrow> rmatch list \<Rightarrow> (nat \<times> str option) list" where
  "starts_and_names t xs = map (\<lambda>m. (mstart m, group t m 1)) xs"

text \<open>The result without any entity.\<close>

definition no_entities :: extraction where
  "no_entities = \<lparr>subsidiaries = [], directors = [], owners = []\<rparr>"

section \<open>The matcher\<close>

lemma ms_Rep_cases:
  assumes "(e, c') \<in> set (ms ic ml t (Rep r lo hi g) (p, c))"
  obtains (stop) "lo = 0" "e = p" "c' = c"
  | (more) e1 c1 where "hi \<noteq> Some 0" "(e1, c1) \<in> set (ms ic ml t r (p, c))"
      "0 < lo \<or> (p < e1 \<and> e1 \<le> length t)"
      "(e, c') \<in> set (ms ic ml t (Rep r (lo - 1) (map_option (\<lambda>h. h - 1) hi) g) (e1, c1))"
  using assms
  by (subst (asm) ms.simps(8)) (auto simp: Let_def split: if_splits)

lemma ms_keeps:
  "(e, c') \<in> set (ms ic ml t r (p, c)) \<Longrightarrow> c k \<noteq> None \<Longrightarrow> c' k \<noteq> None"
proof (induction ic ml t r "(p, c)" arbitrary: p c e c' rule: ms.induct)
  case (5 ic ml t r1 r2 p c)
  from "5.prems"(1) obtain e1 c1 where
    a: "(e1, c1) \<in> set (ms ic ml t r1 (p, c))" and b: "(e, c') \<in> set (ms ic ml t r2 (e1, c1))"
    by auto
  from "5.hyps"(2)[OF a b] "5.hyps"(1)[OF a "5.prems"(2)] show ?case by simp
next
  case (8 ic ml t r lo hi g p c)
  from "8.prems"(1) show ?case
  proof (cases rule: ms_Rep_cases)
    case stop
    with "8.prems"(2) show ?thesis by simp
  next
    case (more e1 c1)
    from "8.hyps"(1)[OF more(1,2) "8.prems"(2)] have "c1 k \<noteq> None" .
    from "8.hyps"(2)[OF more(1,2) refl more(3,4) this] show ?thesis .
  qed
qed (auto split: if_splits)

lemma ms_sets:
  "(e, c') \<in> set (ms ic ml t r (p, c)) \<Longrightarrow> sets k r \<Longrightarrow> c' k \<noteq> None"
proof (induction ic ml t r "(p, c)" arbitrary: p c e c' rule: ms.induct)
  case (5 ic ml t r1 r2 p c)
  from "5.prems"(1) obtain e1 c1 where
    a: "(e1, c1) \<in> set (ms ic ml t r1 (p, c))" and b: "(e, c') \<in> set (ms ic ml t r2 (e1, c1))"
    by auto
  from "5.prems"(2) consider "sets k r1" | "sets k r2" by auto
  then show ?case
  proof cases
    case 1
    from "5.hyps"(1)[OF a 1] ms_keeps[OF b] show ?thesis by simp
  next
    case 2
    from "5.hyps"(2)[OF a b 2] show ?thesis .
  qed
next
  case (8 ic ml t r lo hi g p c)
  from "8.prems"(1) show ?case
  proof (cases rule: ms_Rep_cases)
    case stop
    with "8.prems"(2) show ?thesis by simp
  next
    case (more e1 c1)
    from "8.prems"(2) have "sets k r" by simp
    from "8.hyps"(1)[OF more(1,2) this] ms_keeps[OF more(4)] show ?thesis by simp
  qed
qed (auto split: if_splits)

lemma match_at_ms:
  assumes "match_at ic ml r t adv p = Some m"
  shows "(mend m, mcaps m) \<in> set (ms ic ml t r (mstart m, Map.empty))"
proof -
  from assms obtain e c rest where
    f: "filter (\<lambda>(e, c). \<not> adv \<or> p < e) (ms ic ml t r (p, Map.empty)) = (e, c) # rest"
    and m: "m = \<lparr>mstart = p, mend = e, mcaps = c\<rparr>"
    by (auto simp: match_at_def split: list.splits)
  have "(e, c) \<in> set (filter (\<lambda>(e, c). \<not> adv \<or> p < e) (ms ic ml t r (p, Map.empty)))"
    unfolding f by simp
  with m show ?thesis by simp
qed

lemma search_from_ms:
  "search_from ic ml r t adv p = Some m \<Longrightarrow>
     (mend m, mcaps m) \<in> set (ms ic ml t r (mstart m, Map.empty))"
proof (induction ic ml r t adv p rule: search_from.induct)
  case (1 ic ml r t adv p)
  show ?case
  proof (cases "match_at ic ml r t adv p")
    case (Some m')
    with "1.prems" have "m' = m" by (simp add: search_from.simps[of ic ml r t adv p])
    with match_at_ms[OF Some] show ?thesis by simp
  next
    case None
    with "1.prems" have lt: "p < length t" and s: "search_from ic ml r t False (Suc p) = Some m"
      by (auto simp: search_from.simps[of ic ml r t adv p] split: if_splits)
    from "1.IH"[OF None lt s] show ?thesis .
  qed
qed

declare finditer_from.simps [simp del]

lemma finditer_from_mem:
  "m \<in> set (finditer_from ic ml r t adv p) \<Longrightarrow>
     (mend m, mcaps m) \<in> set (ms ic ml t r (mstart m, Map.empty)) \<and>
     p \<le> mstart m \<and> mstart m \<le> mend m \<and> mend m \<le> length t"
proof (induction ic ml r t adv p rule: finditer_from.induct)
  case (1 ic ml r t adv p)
  note eq = finditer_from.simps[of ic ml r t adv p]
  from "1.prems" have le: "p \<le> length t"
    unfolding eq by (auto split: if_splits)
  from "1.prems" le obtain m0 where
    s: "search_from ic ml r t adv p = Some m0"
    unfolding eq by (cases "search_from ic ml r t adv p") auto
  from "1.prems" le s
  have mem: "m = m0 \<or> m \<in> set (finditer_from ic ml r t (mend m0 = mstart m0) (mend m0))"
    unfolding eq by auto
  note b = search_from_bound[OF s le]
  from mem show ?case
  proof
    assume "m = m0"
    with search_from_ms[OF s] b show ?thesis by simp
  next
    assume "m \<in> set (finditer_from ic ml r t (mend m0 = mstart m0) (mend m0))"
    from "1.IH"[OF _ s this] le b show ?thesis by auto
  qed
qed


lemma finditer_groups:
  assumes "m \<in> set (finditer ic ml r t)" "sets k r"
  shows "\<exists>g. group t m k = Some g"
proof -
  from assms(1) have "(mend m, mcaps m) \<in> set (ms ic ml t r (mstart m, Map.empty))"
    unfolding finditer_def by (rule finditer_from_mem[THEN conjunct1])
  from ms_sets[OF this assms(2)] show ?thesis by (auto simp: group_def)
qed

lemma re_search_groups:
  assumes "re_search ic ml r t = Some m" "sets k r"
  shows "\<exists>g. group t m k = Some g"
proof -
  from assms(1) have "(mend m, mcaps m) \<in> set (ms ic ml t r (mstart m, Map.empty))"
    unfolding re_search_def by (rule search_from_ms)
  from ms_sets[OF this assms(2)] show ?thesis by (auto simp: group_def)
qed

section \<open>Loops that skip seen names\<close>

lemma keep_first_append:
  "keep_first key S (xs @ ys) = keep_first key S xs @ keep_first key (S \<union> key ` set xs) ys"
  by (induction xs arbitrary: S) (auto simp: insert_absorb)

lemma keep_first_keys:
  "key ` set (keep_first key S xs) = key ` set xs - S"
  by (induction xs arbitrary: S) auto

lemma keep_first_distinct: "distinct (map key (keep_first key S xs))"
proof (induction xs arbitrary: S)
  case (Cons x xs)
  have "key x \<notin> key ` set (keep_first key (insert (key x) S) xs)"
    unfolding keep_first_keys by simp
  with Cons show ?case by (simp add: image_iff)
qed simp


lemma keep_first_mem:
  "x \<in> set (keep_first key S xs) \<longleftrightarrow> (\<exists>as bs. xs = as @ x # bs \<and> key x \<notin> S \<union> key ` set as)"
proof (induction xs arbitrary: S)
  case Nil
  show ?case by simp
next
  case (Cons y ys)
  show ?case
  proof
    assume m: "x \<in> set (keep_first key S (y # ys))"
    show "\<exists>as bs. y # ys = as @ x # bs \<and> key x \<notin> S \<union> key ` set as"
    proof (cases "key y \<in> S")
      case True
      with m have "x \<in> set (keep_first key S ys)" by simp
      then obtain as bs where a: "ys = as @ x # bs" "key x \<notin> S \<union> key ` set as"
        unfolding Cons.IH by blast
      with True have "y # ys = (y # as) @ x # bs \<and> key x \<notin> S \<union> key ` set (y # as)" by auto
      then show ?thesis by blast
    next
      case False
      with m consider "x = y" | "x \<in> set (keep_first key (insert (key y) S) ys)" by auto
      then show ?thesis
      proof cases
        case 1
        with False have "y # ys = [] @ x # ys \<and> key x \<notin> S \<union> key ` set []" by simp
        then show ?thesis by blast
      next
        case 2
        then obtain as bs where a: "ys = as @ x # bs" "key x \<notin> insert (key y) S \<union> key ` set as"
          unfolding Cons.IH by blast
        then have "y # ys = (y # as) @ x # bs \<and> key x \<notin> S \<union> key ` set (y # as)" by auto
        then show ?thesis by blast
      qed
    qed
  next
    assume "\<exists>as bs. y # ys = as @ x # bs \<and> key x \<notin> S \<union> key ` set as"
    then obtain as bs where a: "y # ys = as @ x # bs" "key x \<notin> S \<union> key ` set as" by blast
    show "x \<in> set (keep_first key S (y # ys))"
    proof (cases as)
      case Nil
      with a show ?thesis by simp
    next
      case (Cons a as')
      with a have ys: "ys = as' @ x # bs" and ay: "a = y" and
        k: "key x \<notin> insert (key y) S \<union> key ` set as'" "key x \<notin> S \<union> key ` set as'" by auto
      from ys k have "x \<in> set (keep_first key (insert (key y) S) ys)" "x \<in> set (keep_first key S ys)"
        unfolding Cons.IH by blast+
      then show ?thesis by simp
    qed
  qed
qed

lemma for_each_add_new:
  assumes "\<And>m st. m \<in> set ms0 \<Longrightarrow> body st m = Inr (add_new key st (cand m))"
  shows "for_each body ms0 st =
           Inr (fst st @ keep_first key (snd st) (List.map_filter cand ms0),
                snd st \<union> key ` set (List.map_filter cand ms0))"
  using assms
proof (induction ms0 arbitrary: st)
  case Nil
  show ?case by simp
next
  case (Cons m ms0)
  have b: "body st m = Inr (add_new key st (cand m))" by (rule Cons.prems) simp
  have r: "for_each body ms0 st' =
           Inr (fst st' @ keep_first key (snd st') (List.map_filter cand ms0),
                snd st' \<union> key ` set (List.map_filter cand ms0))" for st'
    by (rule Cons.IH) (simp add: Cons.prems)
  show ?case
  proof (cases "cand m")
    case None
    then show ?thesis by (simp add: b r add_new_def)
  next
    case (Some x)
    then show ?thesis
      by (auto simp add: b r add_new_def keep_first_keys insert_absorb)
  qed
qed

lemma for_each_patterns:
  assumes "\<And>p m st. p \<in> set ps \<Longrightarrow> m \<in> set (f p) \<Longrightarrow> body st m = Inr (add_new key st (cand m))"
  shows "for_each (\<lambda>st p. for_each body (f p) st) ps st =
           Inr (fst st @ keep_first key (snd st) (concat (map (\<lambda>p. List.map_filter cand (f p)) ps)),
                snd st \<union> key ` set (concat (map (\<lambda>p. List.map_filter cand (f p)) ps)))"
  using assms
proof (induction ps arbitrary: st)
  case Nil
  show ?case by simp
next
  case (Cons p ps)
  have i: "for_each body (f p) st =
           Inr (fst st @ keep_first key (snd st) (List.map_filter cand (f p)),
                snd st \<union> key ` set (List.map_filter cand (f p)))"
    by (rule for_each_add_new) (rule Cons.prems, simp_all)
  have r: "for_each (\<lambda>st p. for_each body (f p) st) ps st' =
           Inr (fst st' @ keep_first key (snd st') (concat (map (\<lambda>p. List.map_filter cand (f p)) ps)),
                snd st' \<union> key ` set (concat (map (\<lambda>p. List.map_filter cand (f p)) ps)))" for st'
    by (rule Cons.IH) (rule Cons.prems, simp_all)
  show ?case
    by (simp add: i r keep_first_append Un_assoc image_Un)
qed

section \<open>The extractors as filters of their candidates\<close>

lemma sets_exhibit21: "p \<in> set exhibit21_patterns \<Longrightarrow> sets 1 p \<and> sets 2 p"
  by (auto simp: exhibit21_patterns_def seqs_def)

lemma sets_owner: "p \<in> set owner_patterns \<Longrightarrow> sets 1 p \<and> sets 2 p"
  by (auto simp: owner_patterns_def seqs_def)

lemma sets_director: "sets 1 director_pattern"
  by (simp add: director_pattern_def seqs_def)

lemma exhibit21_body_add_new:
  assumes "p \<in> set exhibit21_patterns" "m \<in> set (finditer False True p text)"
  shows "exhibit21_body text st m =
           Inr (add_new (\<lambda>s. lower (name s)) st (exhibit21_candidate text m))"
proof -
  from finditer_groups[OF assms(2)] sets_exhibit21[OF assms(1)]
  obtain g1 g2 where "group text m 1 = Some g1" "group text m 2 = Some g2" by blast
  then show ?thesis
    by (auto simp: exhibit21_body_def exhibit21_candidate_def add_new_def Let_def)
qed

lemma parse_exhibit21_keep_first:
  "parse_exhibit21 text = Inr (keep_first (\<lambda>s. lower (name s)) {} (exhibit21_candidates text))"
  unfolding parse_exhibit21_def exhibit21_candidates_def
  by (subst for_each_patterns[where key = "\<lambda>s. lower (name s)" and cand = "exhibit21_candidate text"])
     (simp_all add: exhibit21_body_add_new)

lemma owner_body_add_new:
  assumes "p \<in> set owner_patterns" "m \<in> set (finditer False True p text)"
  shows "owner_body text st m =
           Inr (add_new (\<lambda>s. lower (name s)) st (owner_candidate text m))"
proof -
  from finditer_groups[OF assms(2)] sets_owner[OF assms(1)]
  obtain g1 g2 where "group text m 1 = Some g1" "group text m 2 = Some g2" by blast
  then show ?thesis
    by (auto simp: owner_body_def owner_candidate_def add_new_def Let_def split: option.splits)
qed

lemma parse_owners_keep_first:
  "parse_def14a_beneficial_owners text =
     Inr (keep_first (\<lambda>s. lower (name s)) {} (owner_candidates text))"
  unfolding parse_def14a_beneficial_owners_def owner_candidates_def
  by (subst for_each_patterns[where key = "\<lambda>s. lower (name s)" and cand = "owner_candidate text"])
     (simp_all add: owner_body_add_new)

lemma director_body_add_new:
  assumes "m \<in> set (finditer True True director_pattern text)"
  shows "director_body text st m =
           Inr (add_new (\<lambda>s. lower (name s)) st (director_candidate text m))"
proof -
  let ?lt = "slice text (nat (max 0 (int (mstart m) - 100))) (int (mend m))"
  from finditer_groups[OF assms sets_director]
  obtain g2 where g2: "group text m 1 = Some g2" by blast
  show ?thesis
  proof (cases "re_search False False (Grp 1 person_rx) ?lt")
    case None
    then show ?thesis
      by (simp add: director_body_def director_candidate_def add_new_def Let_def)
  next
    case (Some nm)
    from re_search_groups[OF Some, of 1] obtain g1 where "group ?lt nm 1 = Some g1" by auto
    with Some g2 show ?thesis
      by (auto simp: director_body_def director_candidate_def add_new_def Let_def)
  qed
qed

lemma parse_directors_keep_first:
  "parse_def14a_directors text =
     Inr (keep_first (\<lambda>s. lower (name s)) {} (director_candidates text))"
  unfolding parse_def14a_directors_def director_candidates_def
  by (subst for_each_add_new[where key = "\<lambda>s. lower (name s)" and cand = "director_candidate text"])
     (simp_all add: director_body_add_new)

section \<open>Metrics\<close>



section \<open>The fallback on the DEF 14A text\<close>

text \<open>
  Claim C2. When the Exhibit 21 step on the 10-K text yields no subsidiary and the 10-K text is
  not empty, the subsidiaries of the result are those \<open>parse_exhibit21\<close> finds in the whole
  DEF 14A text.
\<close>

theorem C2_fallback:
  assumes "map_sum id subsidiaries (extract_from_filings filingA filingB) = Inr []"
    and "filingA \<noteq> []"
  shows "map_sum id subsidiaries (upload_extract filingA filingB) = parse_exhibit21 filingB"
proof -
  from assms(1) obtain r where r: "extract_from_filings filingA filingB = Inr r" "subsidiaries r = []"
    by (cases "extract_from_filings filingA filingB") auto
  obtain subs where "parse_exhibit21 filingB = Inr subs"
    using parse_exhibit21_keep_first by blast
  with r assms(2) show ?thesis by (simp add: upload_extract_def)
qed

theorem C2_fallback_witness:
  "map_sum id subsidiaries (upload_extract (U ''x'') (U ''Fgh (Ij)'')) =
     Inr [\<lparr>name = U ''Fgh'', type' = U ''subsidiary'', jurisdiction = U ''Ij''\<rparr>]"
proof -
  have h1: "map_sum id subsidiaries (extract_from_filings (U ''x'') (U ''Fgh (Ij)'')) = Inr []"
    by code_simp
  have h2: "U ''x'' \<noteq> []" by (simp add: U_def)
  have p: "parse_exhibit21 (U ''Fgh (Ij)'') =
     Inr [\<lparr>name = U ''Fgh'', type' = U ''subsidiary'', jurisdiction = U ''Ij''\<rparr>]"
    by code_simp
  show ?thesis using C2_fallback[OF h1 h2] p by simp
qed

section \<open>\<open>find_section\<close>\<close>

lemma re_search_bound:
  "re_search ic ml r t = Some m \<Longrightarrow> mstart m \<le> mend m \<and> mend m \<le> length t"
  unfolding re_search_def using search_from_bound[of ic ml r t False 0 m] by simp

lemma slice_nat: "slice t s (int s + int k) = take k (drop s t)"
proof (cases "s + k \<le> length t")
  case True
  then have "min (int s + int k) (int (length t)) = int (s + k)" by simp
  then show ?thesis by (simp add: slice_def Let_def del: of_nat_add)
next
  case False
  then have "min (int s + int k) (int (length t)) = int (length t)" by simp
  with False show ?thesis by (simp add: slice_def Let_def)
qed

lemma slice_max_chars: "0 \<le> mc \<Longrightarrow> slice t s (int s + mc) = take (nat mc) (drop s t)"
  using slice_nat[of t s "nat mc"] by simp

lemma slice_take_drop: "\<exists>n. slice t s j = take n (drop s t)"
  unfolding slice_def Let_def by blast

lemma find_end_none:
  "(\<forall>e \<in> set es. re_search True False e (drop s t) = None) \<Longrightarrow> find_end t s es = None"
  by (induction es) auto

lemma find_end_first:
  assumes "\<forall>e' \<in> set epre. re_search True False e' (drop s t) = None"
    and "re_search True False e (drop s t) = Some me"
  shows "find_end t s (epre @ e # epost) = Some (take (mstart me) (drop s t))"
  using assms by (induction epre) (auto simp: slice_nat)

lemma find_end_take: "find_end t s es = Some sec \<Longrightarrow> \<exists>n. sec = take n (drop s t)"
  by (induction es) (auto simp: slice_nat split: option.splits)

lemma find_section_skip:
  "(\<forall>m' \<in> set pre. re_search True False m' t = None) \<Longrightarrow>
     find_section t (pre @ rest) ends mc = find_section t rest ends mc"
  by (induction pre) auto

lemma find_section_no_start:
  "(\<forall>m' \<in> set starts. re_search True False m' t = None) \<Longrightarrow> find_section t starts ends mc = []"
  using find_section_skip[of starts t "[]" ends mc] by simp

lemma find_section_start:
  assumes "\<forall>m' \<in> set pre. re_search True False m' t = None"
    and "re_search True False m t = Some mt"
  shows "find_section t (pre @ m # post) ends mc =
           (case (case ends of None \<Rightarrow> None | Some ems \<Rightarrow> find_end t (mstart mt) ems) of
              Some section \<Rightarrow> section
            | None \<Rightarrow> slice t (mstart mt) (int (mstart mt) + mc))"
  using assms by (simp add: find_section_skip Let_def)

lemma find_section_first_start:
  "find_section t starts ends mc \<noteq> [] \<Longrightarrow>
     \<exists>pre m post mt. starts = pre @ m # post \<and>
        (\<forall>m' \<in> set pre. re_search True False m' t = None) \<and> re_search True False m t = Some mt"
proof (induction starts)
  case Nil
  then show ?case by simp
next
  case (Cons a starts)
  show ?case
  proof (cases "re_search True False a t")
    case None
    with Cons.prems have "find_section t starts ends mc \<noteq> []" by simp
    from Cons.IH[OF this] obtain pre m post mt where
      "starts = pre @ m # post" "\<forall>m' \<in> set pre. re_search True False m' t = None"
      "re_search True False m t = Some mt" by blast
    with None have "a # starts = (a # pre) @ m # post \<and>
        (\<forall>m' \<in> set (a # pre). re_search True False m' t = None) \<and> re_search True False m t = Some mt"
      by simp
    then show ?thesis by blast
  next
    case (Some mt)
    then have "a # starts = [] @ a # starts \<and>
        (\<forall>m' \<in> set []. re_search True False m' t = None) \<and> re_search True False a t = Some mt"
      by simp
    then show ?thesis by blast
  qed
qed

text \<open>
  Claim C5. When no start marker matches, \<open>find_section\<close> returns the empty string.
  Otherwise the first start marker of the list that matches anywhere fixes the start, whatever
  the markers after it match. With end markers, the section ends where the first end marker of
  the list that matches in the text from the start on begins. Without end markers, or when
  none matches, the section is cut to \<open>max_chars\<close> characters.
\<close>

theorem C5_find_section:
  assumes "\<forall>m' \<in> set pre. re_search True False m' text = None"
  shows "find_section text pre ends max_chars = [] \<and>
         (re_search True False m text = Some mt \<longrightarrow>
            (\<forall>epre e epost me.
               (\<forall>e' \<in> set epre. re_search True False e' (drop (mstart mt) text) = None) \<and>
               re_search True False e (drop (mstart mt) text) = Some me \<longrightarrow>
               find_section text (pre @ m # post) (Some (epre @ e # epost)) max_chars =
                 take (mstart me) (drop (mstart mt) text)) \<and>
            ((ends = None \<or>
              (\<exists>es. ends = Some es \<and>
                 (\<forall>e' \<in> set es. re_search True False e' (drop (mstart mt) text) = None))) \<and>
             0 \<le> max_chars \<longrightarrow>
               find_section text (pre @ m # post) ends max_chars =
                 take (nat max_chars) (drop (mstart mt) text)))"
proof (intro conjI impI allI)
  show "find_section text pre ends max_chars = []"
    using assms by (rule find_section_no_start)
next
  fix epre e epost me
  assume mt: "re_search True False m text = Some mt"
    and e: "(\<forall>e' \<in> set epre. re_search True False e' (drop (mstart mt) text) = None) \<and>
            re_search True False e (drop (mstart mt) text) = Some me"
  from e have "find_end text (mstart mt) (epre @ e # epost) =
                 Some (take (mstart me) (drop (mstart mt) text))"
    by (intro find_end_first) auto
  then show "find_section text (pre @ m # post) (Some (epre @ e # epost)) max_chars =
               take (mstart me) (drop (mstart mt) text)"
    by (simp add: find_section_start[OF assms mt])
next
  assume mt: "re_search True False m text = Some mt"
    and n: "(ends = None \<or>
              (\<exists>es. ends = Some es \<and>
                 (\<forall>e' \<in> set es. re_search True False e' (drop (mstart mt) text) = None))) \<and>
            0 \<le> max_chars"
  from n have "(case ends of None \<Rightarrow> None | Some ems \<Rightarrow> find_end text (mstart mt) ems) = None"
    by (auto simp: find_end_none)
  with n show "find_section text (pre @ m # post) ends max_chars =
                 take (nat max_chars) (drop (mstart mt) text)"
    by (simp add: find_section_start[OF assms mt] slice_max_chars)
qed

text \<open>
  Claim C10. A result of \<open>find_section\<close> that is not empty is a piece of the text that starts
  where the first matching start marker matches. The bound \<open>max_chars\<close> holds when no end
  marker matches; when one matches, the section runs up to it, and can be longer than
  \<open>max_chars\<close>, as the section of seven characters for \<open>max_chars = 2\<close> shows.
\<close>

theorem C10_section_substring:
  "(find_section text starts ends max_chars \<noteq> [] \<longrightarrow>
      (\<exists>pre m post mt n. starts = pre @ m # post \<and>
         (\<forall>m' \<in> set pre. re_search True False m' text = None) \<and>
         re_search True False m text = Some mt \<and> mstart mt \<le> length text \<and>
         find_section text starts ends max_chars = take n (drop (mstart mt) text) \<and>
         ((ends = None \<or>
           (\<exists>es. ends = Some es \<and>
              (\<forall>e \<in> set es. re_search True False e (drop (mstart mt) text) = None))) \<and>
          0 \<le> max_chars \<longrightarrow>
            int (length (find_section text starts ends max_chars)) \<le> max_chars) \<and>
         (\<forall>epre e epost me. ends = Some (epre @ e # epost) \<and>
            (\<forall>e' \<in> set epre. re_search True False e' (drop (mstart mt) text) = None) \<and>
            re_search True False e (drop (mstart mt) text) = Some me \<longrightarrow>
            find_section text starts ends max_chars = take (mstart me) (drop (mstart mt) text)))) \<and>
   find_section (U ''A xxx B'') [lit ''a''] (Some [lit ''b'']) 2 = U ''A xxx ''"
proof (intro conjI impI)
  assume ne: "find_section text starts ends max_chars \<noteq> []"
  from find_section_first_start[OF ne] obtain pre m post mt where
    st: "starts = pre @ m # post" and pre: "\<forall>m' \<in> set pre. re_search True False m' text = None"
    and mt: "re_search True False m text = Some mt" by blast
  note fs = find_section_start[OF pre mt, of post ends max_chars, folded st]
  have sub: "\<exists>n. find_section text starts ends max_chars = take n (drop (mstart mt) text)"
    unfolding fs using slice_take_drop find_end_take
    by (auto split: option.splits)
  then obtain n where n: "find_section text starts ends max_chars = take n (drop (mstart mt) text)" ..
  have len: "(ends = None \<or>
           (\<exists>es. ends = Some es \<and>
              (\<forall>e \<in> set es. re_search True False e (drop (mstart mt) text) = None))) \<and>
          0 \<le> max_chars \<longrightarrow>
            int (length (find_section text starts ends max_chars)) \<le> max_chars"
  proof
    assume a: "(ends = None \<or>
           (\<exists>es. ends = Some es \<and>
              (\<forall>e \<in> set es. re_search True False e (drop (mstart mt) text) = None))) \<and>
          0 \<le> max_chars"
    then have "(case ends of None \<Rightarrow> None | Some ems \<Rightarrow> find_end text (mstart mt) ems) = None"
      by (auto simp: find_end_none)
    with a have "find_section text starts ends max_chars = take (nat max_chars) (drop (mstart mt) text)"
      by (simp add: fs slice_max_chars)
    then have "length (find_section text starts ends max_chars) \<le> nat max_chars" by simp
    with a show "int (length (find_section text starts ends max_chars)) \<le> max_chars" by linarith
  qed
  have endm: "\<forall>epre e epost me. ends = Some (epre @ e # epost) \<and>
            (\<forall>e' \<in> set epre. re_search True False e' (drop (mstart mt) text) = None) \<and>
            re_search True False e (drop (mstart mt) text) = Some me \<longrightarrow>
            find_section text starts ends max_chars = take (mstart me) (drop (mstart mt) text)"
  proof (intro allI impI)
    fix epre e epost me
    assume a: "ends = Some (epre @ e # epost) \<and>
            (\<forall>e' \<in> set epre. re_search True False e' (drop (mstart mt) text) = None) \<and>
            re_search True False e (drop (mstart mt) text) = Some me"
    then have "find_end text (mstart mt) (epre @ e # epost) =
                 Some (take (mstart me) (drop (mstart mt) text))"
      by (intro find_end_first) auto
    with a fs show "find_section text starts ends max_chars = take (mstart me) (drop (mstart mt) text)"
      by simp
  qed
  from re_search_bound[OF mt] have "mstart mt \<le> length text" by simp
  with st pre mt n len endm
  show "\<exists>pre m post mt n. starts = pre @ m # post \<and>
         (\<forall>m' \<in> set pre. re_search True False m' text = None) \<and>
         re_search True False m text = Some mt \<and> mstart mt \<le> length text \<and>
         find_section text starts ends max_chars = take n (drop (mstart mt) text) \<and>
         ((ends = None \<or>
           (\<exists>es. ends = Some es \<and>
              (\<forall>e \<in> set es. re_search True False e (drop (mstart mt) text) = None))) \<and>
          0 \<le> max_chars \<longrightarrow>
            int (length (find_section text starts ends max_chars)) \<le> max_chars) \<and>
         (\<forall>epre e epost me. ends = Some (epre @ e # epost) \<and>
            (\<forall>e' \<in> set epre. re_search True False e' (drop (mstart mt) text) = None) \<and>
            re_search True False e (drop (mstart mt) text) = Some me \<longrightarrow>
            find_section text starts ends max_chars = take (mstart me) (drop (mstart mt) text))"
    by blast
next
  show "find_section (U ''A xxx B'') [lit ''a''] (Some [lit ''b'']) 2 = U ''A xxx ''"
    by code_simp
qed

theorem C5_find_section_witness:
  "find_section (U ''B A C'') [lit ''Z''] None 1 = [] \<and>
   find_section (U ''B A C'') [lit ''Z'', lit ''a'', lit ''B''] (Some [lit ''Y'', lit ''c'']) 1 = U ''A '' \<and>
   find_section (U ''B A C'') [lit ''Z'', lit ''a'', lit ''B''] None 1 = U ''A''"
proof -
  let ?T = "U ''B A C''"
  have "map_option mstart (re_search True False (lit ''Z'') ?T) = None" by code_simp
  then have z: "\<forall>m' \<in> set [lit ''Z'']. re_search True False m' ?T = None" by simp
  have "map_option mstart (re_search True False (lit ''a'') ?T) = Some 2" by code_simp
  then obtain mt where mt: "re_search True False (lit ''a'') ?T = Some mt" "mstart mt = 2" by auto
  have "map_option mstart (re_search True False (lit ''Y'') (drop 2 ?T)) = None" by code_simp
  then have y: "\<forall>e' \<in> set [lit ''Y'']. re_search True False e' (drop (mstart mt) ?T) = None"
    using mt(2) by simp
  have "map_option mstart (re_search True False (lit ''c'') (drop 2 ?T)) = Some 2" by code_simp
  then obtain me where me: "re_search True False (lit ''c'') (drop (mstart mt) ?T) = Some me"
    "mstart me = 2" using mt(2) by auto
  note th = C5_find_section[OF z, of None 1 "lit ''a''" mt "[lit ''B'']"]
  from th have p1: "find_section ?T [lit ''Z''] None 1 = []" by (rule conjunct1)
  from th mt(1) have
    p2: "\<forall>epre e epost me.
           (\<forall>e' \<in> set epre. re_search True False e' (drop (mstart mt) ?T) = None) \<and>
           re_search True False e (drop (mstart mt) ?T) = Some me \<longrightarrow>
           find_section ?T ([lit ''Z''] @ lit ''a'' # [lit ''B'']) (Some (epre @ e # epost)) 1 =
             take (mstart me) (drop (mstart mt) ?T)"
    and p3: "find_section ?T ([lit ''Z''] @ lit ''a'' # [lit ''B'']) None 1 =
               take (nat 1) (drop (mstart mt) ?T)"
    by simp_all
  have l: "[lit ''Z''] @ lit ''a'' # [lit ''B''] = [lit ''Z'', lit ''a'', lit ''B'']"
    "[lit ''Y''] @ lit ''c'' # [] = [lit ''Y'', lit ''c'']" by simp_all
  have t2: "take 2 (drop 2 ?T) = U ''A ''" by (simp add: U_def)
  have t3: "take (nat 1) (drop 2 ?T) = U ''A''" by (simp add: U_def)
  from p2[rule_format, of "[lit ''Y'']" "lit ''c''" me "[]", OF conjI[OF y me(1)]]
  have q2: "find_section ?T [lit ''Z'', lit ''a'', lit ''B''] (Some [lit ''Y'', lit ''c'']) 1 = U ''A ''"
    by (simp only: l mt(2) me(2) t2)
  from p3 have q3: "find_section ?T [lit ''Z'', lit ''a'', lit ''B''] None 1 = U ''A''"
    by (simp only: l mt(2) t3)
  from p1 q2 q3 show ?thesis by (intro conjI)
qed

theorem C10_section_substring_witness:
  "find_section (U ''B A C'') [lit ''a''] None 1 = U ''A'' \<and>
   find_section (U ''A xxx B'') [lit ''a''] (Some [lit ''b'']) 2 = U ''A xxx ''"
proof -
  let ?T = "U ''B A C''"
  have ne: "find_section ?T [lit ''a''] None 1 \<noteq> []" by code_simp
  from C10_section_substring[of ?T "[lit ''a'']" None 1, THEN conjunct1, rule_format, OF ne]
  obtain pre m post mt n where
    st: "[lit ''a''] = pre @ m # post" and mt: "re_search True False m ?T = Some mt"
    and fs: "find_section ?T [lit ''a''] None 1 = take n (drop (mstart mt) ?T)"
    and len: "(None = None \<or>
           (\<exists>es. None = Some es \<and>
              (\<forall>e \<in> set es. re_search True False e (drop (mstart mt) ?T) = None))) \<and>
          0 \<le> (1::int) \<longrightarrow> int (length (find_section ?T [lit ''a''] None 1)) \<le> 1"
    by blast
  from st have m: "m = lit ''a''" by (cases pre) auto
  have "map_option mstart (re_search True False (lit ''a'') ?T) = Some 2" by code_simp
  with mt m have s: "mstart mt = 2" by simp
  define r where "r = find_section ?T [lit ''a''] None 1"
  from len have "int (length r) \<le> 1" unfolding r_def by (rule mp) (rule conjI, rule disjI1, rule refl, simp)
  then have "length r \<le> 1" by simp
  moreover from fs have "r = take n (drop 2 ?T)" unfolding r_def by (simp only: s)
  moreover have "r \<noteq> []" unfolding r_def by (rule ne)
  moreover have "drop 2 ?T = U ''A C''" by (simp add: U_def)
  ultimately have "r = U ''A''" by (cases n) (auto simp: U_def)
  then have q1: "find_section ?T [lit ''a''] None 1 = U ''A''" unfolding r_def .
  from q1 C10_section_substring[of ?T "[lit ''a'']" None 1, THEN conjunct2]
  show ?thesis by (intro conjI)
qed

section \<open>Order and uniqueness of the records\<close>




text \<open>
  Claim C7, as the code has it. The records of an extractor have pairwise different lowercase
  names, and a record is returned exactly when it is the first candidate with its lowercase
  name, among the candidates that pass the other filters of the extractor, in the order the
  loops visit them. Of \<open>Abc\<close> and \<open>ABC\<close> the first form survives.
\<close>

theorem C7_unique_names:
  "(\<exists>out. parse_exhibit21 text = Inr out \<and> distinct (map (\<lambda>s. lower (name s)) out) \<and>
      (\<forall>x. x \<in> set out \<longleftrightarrow>
         (\<exists>as bs. exhibit21_candidates text = as @ x # bs \<and>
            lower (name x) \<notin> (\<lambda>s. lower (name s)) ` set as))) \<and>
   (\<exists>out. parse_def14a_directors text = Inr out \<and> distinct (map (\<lambda>s. lower (name s)) out) \<and>
      (\<forall>x. x \<in> set out \<longleftrightarrow>
         (\<exists>as bs. director_candidates text = as @ x # bs \<and>
            lower (name x) \<notin> (\<lambda>s. lower (name s)) ` set as))) \<and>
   (\<exists>out. parse_def14a_beneficial_owners text = Inr out \<and>
      distinct (map (\<lambda>s. lower (name s)) out) \<and>
      (\<forall>x. x \<in> set out \<longleftrightarrow>
         (\<exists>as bs. owner_candidates text = as @ x # bs \<and>
            lower (name x) \<notin> (\<lambda>s. lower (name s)) ` set as))) \<and>
   parse_exhibit21 (U ''Abc (De)'' @ NL @ U ''ABC (Fg)'') =
     Inr [\<lparr>name = U ''Abc'', type' = U ''subsidiary'', jurisdiction = U ''De''\<rparr>]"
proof -
  have "parse_exhibit21 (U ''Abc (De)'' @ NL @ U ''ABC (Fg)'') =
     Inr [\<lparr>name = U ''Abc'', type' = U ''subsidiary'', jurisdiction = U ''De''\<rparr>]"
    by code_simp
  then show ?thesis
    unfolding parse_exhibit21_keep_first parse_directors_keep_first parse_owners_keep_first
    by (simp add: keep_first_distinct keep_first_mem)
qed

text \<open>
  The claim as stated fails for the owners: the first form \<open>Abcd\<close> is dropped for its
  percentage, without being marked as seen, and the record carries the second form \<open>ABCD\<close>.
\<close>

theorem C7_first_form_counterexample:
  "parse_def14a_beneficial_owners (U ''Abcd 100%'' @ NL @ U ''ABCD 5%'') =
     Inr [\<lparr>name = U ''ABCD'', type' = U ''owner'', ownership = 5\<rparr>] \<and>
   starts_and_names (U ''Abcd 100%'' @ NL @ U ''ABCD 5%'')
     (finditer False True (owner_patterns ! 0) (U ''Abcd 100%'' @ NL @ U ''ABCD 5%'')) =
     [(0, Some (U ''Abcd'')), (10, Some (U ''ABCD''))]"
  by code_simp

section \<open>The filter on beneficial owners\<close>






section \<open>No error, and the empty result\<close>

lemma extract_from_filings_total: "\<exists>r. extract_from_filings a b = Inr r"
  unfolding extract_from_filings_def parse_exhibit21_keep_first parse_directors_keep_first
    parse_owners_keep_first Let_def
  by (simp del: find_section.simps)

lemma upload_extract_total: "\<exists>r. upload_extract a b = Inr r"
proof -
  obtain r where "extract_from_filings a b = Inr r" using extract_from_filings_total by blast
  then show ?thesis
    by (simp add: upload_extract_def parse_exhibit21_keep_first)
qed

lemma candidates_empty:
  "(\<forall>p \<in> set ps. f p = []) \<Longrightarrow> concat (map (\<lambda>p. List.map_filter c (f p)) ps) = []"
  by (induction ps) auto

text \<open>
  Claim C8. The extractors, \<open>extract_from_filings\<close> and the fallback of \<open>upload\<close> return a
  result for every text, never an error. A capture that \<open>float\<close> rejects leaves the state of
  the loop as it is, and the loop goes on with the next match. The empty text, and any text
  without a match, give empty lists. On the empty result the complexity score is 0, the
  governance score is 5 and the risk level is \<open>MEDIUM\<close>.
\<close>

theorem C8_no_error:
  "(\<exists>s. parse_exhibit21 text = Inr s) \<and>
   (\<exists>d. parse_def14a_directors text = Inr d) \<and>
   (\<exists>w. parse_def14a_beneficial_owners text = Inr w) \<and>
   (\<exists>r. extract_from_filings text text' = Inr r) \<and>
   (\<exists>r. upload_extract text text' = Inr r) \<and>
   (group text m 1 = Some g1 \<and> group text m 2 = Some g2 \<and> float (strip g2) = None \<longrightarrow>
      owner_body text st m = Inr st \<and>
      for_each (owner_body text) (m # rest) st = for_each (owner_body text) rest st) \<and>
   parse_exhibit21 [] = Inr [] \<and>
   parse_def14a_directors [] = Inr [] \<and>
   parse_def14a_beneficial_owners [] = Inr [] \<and>
   ((\<forall>p \<in> set exhibit21_patterns. finditer False True p text = []) \<longrightarrow>
      parse_exhibit21 text = Inr []) \<and>
   (finditer True True director_pattern text = [] \<longrightarrow> parse_def14a_directors text = Inr []) \<and>
   ((\<forall>p \<in> set owner_patterns. finditer False True p text = []) \<longrightarrow>
      parse_def14a_beneficial_owners text = Inr []) \<and>
   upload_extract [] [] = Inr no_entities \<and>
   complexity_score (calculate_metrics no_entities) = 0 \<and>
   governance_score (calculate_metrics no_entities) = 5 \<and>
   risk_level (calculate_metrics no_entities) = MEDIUM"
proof (intro conjI impI)
  show "\<exists>s. parse_exhibit21 text = Inr s" by (simp add: parse_exhibit21_keep_first)
  show "\<exists>d. parse_def14a_directors text = Inr d" by (simp add: parse_directors_keep_first)
  show "\<exists>w. parse_def14a_beneficial_owners text = Inr w" by (simp add: parse_owners_keep_first)
  show "\<exists>r. extract_from_filings text text' = Inr r" by (rule extract_from_filings_total)
  show "\<exists>r. upload_extract text text' = Inr r" by (rule upload_extract_total)
  show "parse_exhibit21 [] = Inr []" by code_simp
  show "parse_def14a_directors [] = Inr []" by code_simp
  show "parse_def14a_beneficial_owners [] = Inr []" by code_simp
  show "upload_extract [] [] = Inr no_entities" by code_simp
  show "complexity_score (calculate_metrics no_entities) = 0" by code_simp
  show "governance_score (calculate_metrics no_entities) = 5" by code_simp
  show "risk_level (calculate_metrics no_entities) = MEDIUM" by code_simp
next
  assume "group text m 1 = Some g1 \<and> group text m 2 = Some g2 \<and> float (strip g2) = None"
  then show b: "owner_body text st m = Inr st"
    by (simp add: owner_body_def Let_def)
  then show "for_each (owner_body text) (m # rest) st = for_each (owner_body text) rest st"
    by simp
next
  assume "\<forall>p \<in> set exhibit21_patterns. finditer False True p text = []"
  then have "exhibit21_candidates text = []"
    unfolding exhibit21_candidates_def by (rule candidates_empty)
  then show "parse_exhibit21 text = Inr []" by (simp add: parse_exhibit21_keep_first)
next
  assume "finditer True True director_pattern text = []"
  then have "director_candidates text = []" by (simp add: director_candidates_def)
  then show "parse_def14a_directors text = Inr []" by (simp add: parse_directors_keep_first)
next
  assume "\<forall>p \<in> set owner_patterns. finditer False True p text = []"
  then have "owner_candidates text = []"
    unfolding owner_candidates_def by (rule candidates_empty)
  then show "parse_def14a_beneficial_owners text = Inr []" by (simp add: parse_owners_keep_first)
qed

theorem C8_no_error_witness:
  "for_each (owner_body (U ''Abcd x%''))
     [\<lparr>mstart = 0, mend = 7, mcaps = [1 \<mapsto> (0, 4), 2 \<mapsto> (5, 6)]\<rparr>] ([], {}) = Inr ([], {}) \<and>
   parse_exhibit21 (U ''x'') = Inr [] \<and>
   parse_def14a_directors (U ''x'') = Inr [] \<and>
   parse_def14a_beneficial_owners (U ''x'') = Inr []"
proof -
  let ?T = "U ''Abcd x%''"
  let ?M = "\<lparr>mstart = 0, mend = 7, mcaps = [1 \<mapsto> (0, 4), 2 \<mapsto> (5, 6)]\<rparr>"
  have g1: "group ?T ?M 1 = Some (U ''Abcd'')" by code_simp
  have g2: "group ?T ?M 2 = Some (U ''x'')" by code_simp
  have f: "float (strip (U ''x'')) = None" by code_simp
  note a = C8_no_error[of ?T _ ?M "U ''Abcd''" "U ''x''" "([], {})" "[]"]
  from a g1 g2 f have "for_each (owner_body ?T) (?M # []) ([], {}) = for_each (owner_body ?T) [] ([], {})"
    by blast
  then have w1: "for_each (owner_body ?T) [?M] ([], {}) = Inr ([], {})" by (simp only: for_each.simps)
  have e1: "\<forall>p \<in> set exhibit21_patterns. length (finditer False True p (U ''x'')) = 0" by code_simp
  have e2: "length (finditer True True director_pattern (U ''x'')) = 0" by code_simp
  have e3: "\<forall>p \<in> set owner_patterns. length (finditer False True p (U ''x'')) = 0" by code_simp
  note b = C8_no_error[of "U ''x''"]
  from b e1 have w2: "parse_exhibit21 (U ''x'') = Inr []" by simp
  from b e2 have w3: "parse_def14a_directors (U ''x'') = Inr []" by simp
  from b e3 have w4: "parse_def14a_beneficial_owners (U ''x'') = Inr []" by simp
  from w1 w2 w3 w4 show ?thesis by (intro conjI)
qed

section \<open>Two runs on the same text\<close>



section \<open>The director extractor and letter case\<close>






















end
